theory Spec2Isabelle
  imports Main "HOL-Library.Sublist"
begin

section \<open>Library functions used by the request parser\<close>

text \<open>
  Go strings are byte sequences, so a Go \<open>string\<close> and a \<open>[]byte\<close> are both a
  \<^typ>\<open>string\<close> (a list of 8-bit characters) here, and \<open>len\<close> is \<^const>\<open>length\<close>.
  A nil slice is the empty list.
\<close>

definition CR :: char where
  "CR = CHR 0x0D"

definition LF :: char where
  "LF = CHR 0x0A"

definition CRLF :: string where
  "CRLF = [CR, LF]"

text \<open>
  \<open>strings.ToLower\<close>. Go first looks for a byte that is not ASCII (\<open>c >= utf8.RuneSelf\<close>,
  that is 128). A string of ASCII bytes only is mapped byte by byte, \<open>'A'..'Z'\<close> to
  \<open>'a'..'z'\<close>, every other byte kept. Any other string is returned as
  \<open>Map(unicode.ToLower, s)\<close>, which decodes UTF-8 (an invalid byte becomes U+FFFD) and
  uses the case tables of the Go library. Those tables are not part of the program:
  the function \<open>Map(unicode.ToLower, _)\<close> is the parameter \<open>ul\<close> of \<open>ToLower\<close> and
  of everything that calls it, and nothing is assumed of it.
\<close>

definition toLowerByte :: "char \<Rightarrow> char" where
  "toLowerByte c =
     (let n = (of_char c :: nat) in if 65 \<le> n \<and> n \<le> 90 then char_of (n + 32) else c)"

definition isASCII :: "string \<Rightarrow> bool" where
  "isASCII s = list_all (\<lambda>c. (of_char c :: nat) < 128) s"

definition ToLower :: "(string \<Rightarrow> string) \<Rightarrow> string \<Rightarrow> string" where
  "ToLower ul s = (if isASCII s then map toLowerByte s else ul s)"

text \<open>
  \<open>strings.Index(s, substr)\<close>: the index of the first instance of \<open>substr\<close> in
  \<open>s\<close>; Go's \<open>-1\<close> is \<open>None\<close>.
\<close>

fun Index :: "string \<Rightarrow> string \<Rightarrow> nat option" where
  "Index [] substr = (if substr = [] then Some 0 else None)"
| "Index (c # s) substr =
     (if prefix substr (c # s) then Some 0 else map_option Suc (Index s substr))"

text \<open>
  \<open>strings.Count(s, substr)\<close> for a non-empty \<open>substr\<close>: the number of
  non-overlapping instances, found by the loop
  \<^verbatim>\<open>for { i := Index(s, substr); if i == -1 { return n }; n++; s = s[i+len(substr):] }\<close>.
  For the empty \<open>substr\<close> Go returns the number of runes plus one (bytes stand for
  runes). \<open>parse\<close> passes the separators \<open>" "\<close> and \<open>": "\<close> only.
\<close>

lemma Index_Some_le:
  "Index s substr = Some i \<Longrightarrow> i + length substr \<le> length s"
proof (induction s arbitrary: i)
  case Nil
  then show ?case by (simp split: if_splits)
next
  case (Cons c s)
  show ?case
  proof (cases "prefix substr (c # s)")
    case True
    with Cons.prems show ?thesis by (auto dest: prefix_length_le)
  next
    case False
    with Cons.prems obtain j where "Index s substr = Some j" "i = Suc j"
      by auto
    with Cons.IH show ?thesis by fastforce
  qed
qed

function Count :: "string \<Rightarrow> string \<Rightarrow> nat" where
  "Count s substr =
     (if substr = [] then length s + 1
      else case Index s substr of
             None \<Rightarrow> 0
           | Some i \<Rightarrow> Suc (Count (drop (i + length substr) s) substr))"
  by pat_completeness auto
termination
proof (relation "measure (\<lambda>(s, substr). length s)")
  show "wf (measure (\<lambda>(s, substr). length s))" by simp
next
  fix s substr :: string and i
  assume "substr \<noteq> []" and "Index s substr = Some i"
  then have "i + length substr \<le> length s"
    by (rule_tac Index_Some_le)
  moreover from \<open>substr \<noteq> []\<close> have "0 < length substr"
    by (cases substr) simp_all
  ultimately have "length (drop (i + length substr) s) < length s"
    by (simp del: length_greater_0_conv)
  then show "((drop (i + length substr) s, substr), (s, substr))
             \<in> measure (\<lambda>(s, substr). length s)"
    by simp
qed

declare Count.simps [simp del]

text \<open>
  \<open>strings.genSplit(s, sep, 0, n)\<close> for a non-empty \<open>sep\<close>, which both
  \<open>strings.Split\<close> (\<open>n = -1\<close>) and \<open>strings.SplitN\<close> call:
  \<^verbatim>\<open>
  if n == 0 { return nil }
  if n < 0 { n = Count(s, sep) + 1 }
  if n > len(s)+1 { n = len(s) + 1 }
  a := make([]string, n); n--; i := 0
  for i < n {
      m := Index(s, sep)
      if m < 0 { break }
      a[i] = s[:m]; s = s[m+len(sep):]; i++
  }
  a[i] = s
  return a[:i+1]
  \<close>
  \<open>genSplit_loop k\<close> is the \<open>for\<close> loop with \<open>k = n - i\<close> rounds left, followed by
  the last two statements.
\<close>

fun genSplit_loop :: "nat \<Rightarrow> string \<Rightarrow> string \<Rightarrow> string list" where
  "genSplit_loop 0 s sep = [s]"
| "genSplit_loop (Suc k) s sep =
     (case Index s sep of
        None \<Rightarrow> [s]
      | Some m \<Rightarrow> take m s # genSplit_loop k (drop (m + length sep) s) sep)"

definition genSplit :: "string \<Rightarrow> string \<Rightarrow> int \<Rightarrow> string list" where
  "genSplit s sep n =
     (if n = 0 then []
      else
        let n1 = (if n < 0 then Count s sep + 1 else nat n);
            n2 = (if n1 > length s + 1 then length s + 1 else n1)
        in genSplit_loop (n2 - 1) s sep)"

definition Split :: "string \<Rightarrow> string \<Rightarrow> string list" where
  "Split s sep = genSplit s sep (- 1)"

definition SplitN :: "string \<Rightarrow> string \<Rightarrow> int \<Rightarrow> string list" where
  "SplitN s sep n = genSplit s sep n"

section \<open>The request and its parser\<close>

text \<open>
  \<open>type Request struct\<close>. \<open>Headers\<close> is a Go map, which may be nil: \<open>None\<close> is
  the nil map, \<open>Some m\<close> a map made with \<open>make\<close>. The field \<open>done\<close> is written
  \<open>done'\<close>.
\<close>

record Request =
  Protocol :: string
  Method :: string
  Path :: string
  Headers :: "(string \<rightharpoonup> string) option"
  wroteProtocol :: bool
  wroteHeaders :: bool
  Body :: string
  done' :: bool

text \<open>
  The \<open>error\<close> values of the program: one made by \<open>fmt.Errorf\<close>, with its message;
  \<open>io.EOF\<close>; and any other error that a read or a write on the connection returns.
\<close>

datatype error = Errorf string | EOF | ConnError string

text \<open>
  A call either returns or panics. \<open>parse\<close> mutates its receiver, so it returns the
  \<open>error\<close> (\<open>None\<close> is Go's nil) together with the receiver after the call.
\<close>

datatype 'a exec = Returns 'a | Panics string

definition parse :: "(string \<Rightarrow> string) \<Rightarrow> Request \<Rightarrow> string \<Rightarrow> (error option \<times> Request) exec" where
  "parse ul r line =
     (if length line = 0 then
        Returns (None, r\<lparr>wroteHeaders := True, done' := True\<rparr>)
      else if \<not> wroteProtocol r then
        (let splits = Split line '' '' in
         if length splits \<noteq> 3 then Returns (Some (Errorf ''protocol line is not valid''), r)
         else Returns (None, r\<lparr>Method := splits ! 0, Path := splits ! 1,
                                 Protocol := splits ! 2, wroteProtocol := True\<rparr>))
      else if \<not> wroteHeaders r then
        (let splits = SplitN line '': '' 2 in
         if length splits \<noteq> 2 then Returns (Some (Errorf ''invalid header''), r)
         else case Headers r of
                None \<Rightarrow> Panics ''assignment to entry in nil map''
              | Some h \<Rightarrow>
                  Returns (None,
                    r\<lparr>Headers := Some (h(ToLower ul (splits ! 0) \<mapsto> ToLower ul (splits ! 1)))\<rparr>))
      else Returns (None, r))"

text \<open>
  A sequence of \<open>parse\<close> calls on one request, one call per line, whatever each call
  returns (a caller may go on after an error); a panic ends the sequence.
\<close>

fun parse_calls :: "(string \<Rightarrow> string) \<Rightarrow> Request \<Rightarrow> string list \<Rightarrow> Request exec" where
  "parse_calls ul r [] = Returns r"
| "parse_calls ul r (line # rest) =
     (case parse ul r line of
        Panics p \<Rightarrow> Panics p
      | Returns (err, r') \<Rightarrow> parse_calls ul r' rest)"

section \<open>The connection handlers\<close>

text \<open>
  \<open>strconv.Itoa\<close>: the decimal digits of an \<open>int\<close>, with a minus sign when negative.
\<close>

fun digits :: "nat \<Rightarrow> string" where
  "digits n = (if n < 10 then [char_of (48 + n)] else digits (n div 10) @ [char_of (48 + n mod 10)])"

declare digits.simps [simp del]

definition Itoa :: "int \<Rightarrow> string" where
  "Itoa i = (if i < 0 then CHR ''-'' # digits (nat (- i)) else digits (nat i))"

text \<open>
  What a handler does to its connection: the buffer it passed to \<open>conn.Write\<close> (empty
  when it did not call \<open>Write\<close>; a handler calls it once at most) and whether it called
  \<open>conn.Close\<close>. The error that \<open>conn.Write\<close> returns for a buffer is given by the
  parameter \<open>connWrite\<close> of the handlers (\<open>None\<close> is nil).
\<close>

record conn =
  written :: string
  closed :: bool

definition dataToWrite :: string where
  "dataToWrite = ''Gopher!!''"

text \<open>
  The buffer that \<open>handleConnection_v4\<close> (lines 278 to 288) and \<open>handleConnection_v5\<close>
  (lines 352 to 360) build, one \<open>WriteString\<close>/\<open>Write\<close> after the other, for the data
  to write.
\<close>

definition response_ok :: "string \<Rightarrow> string" where
  "response_ok d =
     ''HTTP/1.1 200 OK'' @ CRLF @ ''Content-Length: '' @ Itoa (int (length d)) @ CRLF @ CRLF @ d"

text \<open>The buffer of the other branch of the router in \<open>handleConnection_v5\<close>.\<close>

definition response_not_found :: string where
  "response_not_found = ''HTTP/1.1 404 Not Found'' @ CRLF @ ''Content-Length: 0'' @ CRLF @ CRLF"

text \<open>
  The read loop of \<open>handleConnection_v4\<close> (lines 256 to 274), on the results \<open>(n, err)\<close>
  of the successive calls of \<open>conn.Read\<close>: \<open>Some False\<close> when the handler returns on a
  read error that is not \<open>io.EOF\<close>, \<open>Some True\<close> when the loop breaks on a short read
  (\<open>n < 1<<6\<close>), and \<open>None\<close> when the given results end while the loop still reads.
  The bytes read are not used afterwards.
\<close>

fun read_loop :: "(nat \<times> error option) list \<Rightarrow> bool option" where
  "read_loop [] = None"
| "read_loop ((n, err) # reads) =
     (case err of
        Some e \<Rightarrow>
          if e \<noteq> EOF then Some False
          else if n < 64 then Some True else read_loop reads
      | None \<Rightarrow> if n < 64 then Some True else read_loop reads)"

text \<open>
  \<open>handleConnection_v4\<close>: after the read loop it builds the buffer and writes it; when
  the write fails it returns without closing the connection, otherwise it closes it.
  \<open>None\<close> when the handler is still reading.
\<close>

definition handleConnection_v4 ::
    "(string \<Rightarrow> error option) \<Rightarrow> (nat \<times> error option) list \<Rightarrow> conn option" where
  "handleConnection_v4 connWrite reads =
     (case read_loop reads of
        None \<Rightarrow> None
      | Some False \<Rightarrow> Some \<lparr>written = [], closed = False\<rparr>
      | Some True \<Rightarrow>
          (case connWrite (response_ok dataToWrite) of
             Some err \<Rightarrow> Some \<lparr>written = response_ok dataToWrite, closed = False\<rparr>
           | None \<Rightarrow> Some \<lparr>written = response_ok dataToWrite, closed = True\<rparr>))"

text \<open>\<open>req := new(Request); req.Headers = make(map[string]string)\<close>.\<close>

definition new_Request :: Request where
  "new_Request =
     \<lparr>Protocol = [], Method = [], Path = [], Headers = Some Map.empty,
      wroteProtocol = False, wroteHeaders = False, Body = [], done' = False\<rparr>"

text \<open>
  The loop \<open>for scanner.Scan() { ... }\<close> of \<open>handleConnection_v5\<close>. The scanner is
  taken as the list of the lines that \<open>scanner.Text()\<close> gives until \<open>Scan\<close> returns
  false (end of the stream); the loop leaves early on an error and on \<open>req.done\<close>.
\<close>

fun scan_loop :: "(string \<Rightarrow> string) \<Rightarrow> Request \<Rightarrow> string list \<Rightarrow> (error option \<times> Request) exec" where
  "scan_loop ul req [] = Returns (None, req)"
| "scan_loop ul req (line # rest) =
     (case parse ul req line of
        Panics p \<Rightarrow> Panics p
      | Returns (Some err, req') \<Rightarrow> Returns (Some err, req')
      | Returns (None, req') \<Rightarrow>
          if done' req' then Returns (None, req') else scan_loop ul req' rest)"

text \<open>
  \<open>handleConnection_v5\<close>. On a parse error it closes the connection and returns. The
  404 branch ignores the result of the write and closes the connection; the 200 branch
  returns without closing it when the write fails (lines 363 to 368).
\<close>

definition handleConnection_v5 ::
    "(string \<Rightarrow> string) \<Rightarrow> (string \<Rightarrow> error option) \<Rightarrow> string list \<Rightarrow> conn exec" where
  "handleConnection_v5 ul connWrite lines =
     (case scan_loop ul new_Request lines of
        Panics p \<Rightarrow> Panics p
      | Returns (Some err, req) \<Rightarrow> Returns \<lparr>written = [], closed = True\<rparr>
      | Returns (None, req) \<Rightarrow>
          if Path req \<noteq> ''/'' \<or> Method req \<noteq> ''GET'' then
            Returns \<lparr>written = response_not_found, closed = True\<rparr>
          else
            (case connWrite (response_ok dataToWrite) of
               Some err \<Rightarrow> Returns \<lparr>written = response_ok dataToWrite, closed = False\<rparr>
             | None \<Rightarrow> Returns \<lparr>written = response_ok dataToWrite, closed = True\<rparr>))"

section \<open>The line scanner\<close>

text \<open>
  \<open>bufio.ScanLines\<close>, the split function of the scanner: the number of bytes to
  advance and the next line without its end-of-line marker (\<open>None\<close> when there is no
  token yet); it never returns an error. \<open>dropCR\<close> drops one trailing carriage
  return.
\<close>

fun IndexByte :: "string \<Rightarrow> char \<Rightarrow> nat option" where
  "IndexByte [] c = None"
| "IndexByte (b # s) c = (if b = c then Some 0 else map_option Suc (IndexByte s c))"

definition dropCR :: "string \<Rightarrow> string" where
  "dropCR data =
     (if length data > 0 \<and> data ! (length data - 1) = CR then take (length data - 1) data
      else data)"

definition ScanLines :: "string \<Rightarrow> bool \<Rightarrow> nat \<times> string option" where
  "ScanLines data atEOF =
     (if atEOF \<and> length data = 0 then (0, None)
      else case IndexByte data LF of
             Some i \<Rightarrow> (i + 1, Some (dropCR (take i data)))
           | None \<Rightarrow> if atEOF then (length data, Some (dropCR data)) else (0, None))"

text \<open>
  The first \<open>k\<close> lines that the scanner yields on a stream holding exactly \<open>data\<close>
  (the split function sees all of it, at end of file), and the bytes after them.
\<close>

fun scan_tokens :: "nat \<Rightarrow> string \<Rightarrow> string list \<times> string" where
  "scan_tokens 0 data = ([], data)"
| "scan_tokens (Suc k) data =
     (case ScanLines data True of
        (advance, None) \<Rightarrow> ([], data)
      | (advance, Some token) \<Rightarrow>
          (case scan_tokens k (drop advance data) of
             (tokens, rest) \<Rightarrow> (token # tokens, rest)))"

section \<open>Well-formed header lines\<close>

text \<open>
  Used to state the claims about well-formed input: the header line \<open>name: value\<close>
  of a pair, and the entry that the lower-casing of \<open>parse\<close> makes of it.
\<close>

definition header_line :: "string \<times> string \<Rightarrow> string" where
  "header_line nv = fst nv @ '': '' @ snd nv"

definition header_entry :: "(string \<Rightarrow> string) \<Rightarrow> string \<times> string \<Rightarrow> string \<times> string" where
  "header_entry ul nv = (ToLower ul (fst nv), ToLower ul (snd nv))"

section \<open>Facts about the library functions\<close>

lemma Index_Nil_sep [simp]: "Index s [] = Some 0"
  by (cases s) simp_all

lemma Index_notin: "c \<notin> set s \<Longrightarrow> Index s (c # t) = None"
  by (induction s) auto

lemma Index_skip:
  "c \<notin> set m \<Longrightarrow>
   Index (m @ s) (c # t) = (case Index s (c # t) of None \<Rightarrow> None | Some i \<Rightarrow> Some (length m + i))"
  by (induction m) (auto split: option.splits)

lemma Index_first: "c \<notin> set m \<Longrightarrow> Index (m @ c # t @ rest) (c # t) = Some (length m)"
proof -
  assume "c \<notin> set m"
  then show ?thesis
    by (simp add: Index_skip [of c m "c # t @ rest" t])
qed

lemma Index_Some_iff:
  "Index s sep = Some i \<longleftrightarrow>
     i \<le> length s \<and> prefix sep (drop i s) \<and> (\<forall>j<i. \<not> prefix sep (drop j s))"
proof (induction s arbitrary: i)
  case Nil
  then show ?case by auto
next
  case (Cons c s)
  show ?case
  proof (cases "prefix sep (c # s)")
    case True
    then show ?thesis by (cases i) auto
  next
    case False
    show ?thesis
    proof (cases i)
      case 0
      with False show ?thesis by simp
    next
      case (Suc k)
      have "(\<forall>j<Suc k. \<not> prefix sep (drop j (c # s))) \<longleftrightarrow> (\<forall>j<k. \<not> prefix sep (drop j s))"
        using False by (auto simp: less_Suc_eq_0_disj)
      with False Suc Cons.IH [of k] show ?thesis by auto
    qed
  qed
qed

lemma Index_None_iff:
  "Index s sep = None \<longleftrightarrow> (\<forall>pre post. s \<noteq> pre @ sep @ post)"
proof (induction s)
  case Nil
  then show ?case by auto
next
  case (Cons c s)
  show ?case
  proof (cases "prefix sep (c # s)")
    case True
    then obtain post where "c # s = sep @ post" by (auto simp: prefix_def)
    then have "c # s = [] @ sep @ post" by simp
    with True show ?thesis by (metis Index.simps(2) option.distinct(1))
  next
    case False
    have "(\<forall>pre post. c # s \<noteq> pre @ sep @ post) \<longleftrightarrow> (\<forall>pre post. s \<noteq> pre @ sep @ post)"
    proof
      assume a: "\<forall>pre post. c # s \<noteq> pre @ sep @ post"
      show "\<forall>pre post. s \<noteq> pre @ sep @ post"
      proof (intro allI notI)
        fix pre post assume "s = pre @ sep @ post"
        then have "c # s = (c # pre) @ sep @ post" by simp
        with a show False by blast
      qed
    next
      assume a: "\<forall>pre post. s \<noteq> pre @ sep @ post"
      show "\<forall>pre post. c # s \<noteq> pre @ sep @ post"
      proof (intro allI notI)
        fix pre post assume b: "c # s = pre @ sep @ post"
        show False
        proof (cases pre)
          case Nil
          with b have "prefix sep (c # s)" by (simp add: prefix_def)
          with False show False by simp
        next
          case (Cons x xs)
          with b have "s = xs @ sep @ post" by simp
          with a show False by blast
        qed
      qed
    qed
    with False Cons.IH show ?thesis by simp
  qed
qed

lemma Index_Some_split:
  "Index s sep = Some i \<Longrightarrow> s = take i s @ sep @ drop (i + length sep) s"
proof -
  assume "Index s sep = Some i"
  then have "prefix sep (drop i s)" by (simp add: Index_Some_iff)
  then obtain post where p: "drop i s = sep @ post" by (auto simp: prefix_def)
  then have "drop (length sep) (drop i s) = post" by simp
  then have "drop (i + length sep) s = post" by (simp add: add.commute)
  with p have "take i s @ sep @ drop (i + length sep) s = take i s @ drop i s" by simp
  then show ?thesis by simp
qed


lemma Count_single: "Count s [c] = count_list s c"
proof (induction s rule: length_induct)
  case (1 s)
  show ?case
  proof (cases "c \<in> set s")
    case False
    then show ?thesis by (simp add: Count.simps Index_notin)
  next
    case True
    then obtain ys zs where s: "s = ys @ c # zs" and ys: "c \<notin> set ys"
      by (auto dest: split_list_first)
    from ys have "Index (ys @ c # [] @ zs) [c] = Some (length ys)"
      by (rule Index_first)
    with s have "Count s [c] = Suc (Count zs [c])"
      by (simp add: Count.simps)
    moreover from s have "length zs < length s" by simp
    with 1 have "Count zs [c] = count_list zs c" by blast
    ultimately show ?thesis using s ys by simp
  qed
qed

lemma genSplit_loop_first:
  "c \<notin> set m \<Longrightarrow> genSplit_loop (Suc k) (m @ c # rest) [c] = m # genSplit_loop k rest [c]"
  using Index_first [of c m "[]" rest] by simp

lemma length_genSplit_loop:
  "length (genSplit_loop k s [c]) = Suc (min k (count_list s c))"
proof (induction k arbitrary: s)
  case 0
  then show ?case by simp
next
  case (Suc k)
  show ?case
  proof (cases "c \<in> set s")
    case False
    then show ?thesis by (simp add: Index_notin)
  next
    case True
    then obtain ys zs where s: "s = ys @ c # zs" and ys: "c \<notin> set ys"
      by (auto dest: split_list_first)
    then show ?thesis
      using genSplit_loop_first [OF ys, of k zs] Suc.IH [of zs] by simp
  qed
qed

lemma count_list_le_length: "count_list s c \<le> length s"
  by (induction s) auto

lemma length_Split: "length (Split s [c]) = Suc (count_list s c)"
  using count_list_le_length [of s c]
  by (simp add: Split_def genSplit_def Count_single length_genSplit_loop Let_def)

lemma Split_eq_loop: "Split s [c] = genSplit_loop (count_list s c) s [c]"
  using count_list_le_length [of s c]
  by (simp add: Split_def genSplit_def Count_single Let_def)

lemma Split_three:
  assumes "c \<notin> set m" "c \<notin> set p" "c \<notin> set v"
  shows "Split (m @ c # p @ c # v) [c] = [m, p, v]"
proof -
  have "count_list (m @ c # p @ c # v) c = Suc (Suc 0)"
    using assms by simp
  then have "Split (m @ c # p @ c # v) [c] = genSplit_loop (Suc (Suc 0)) (m @ c # p @ c # v) [c]"
    by (simp add: Split_eq_loop)
  also have "\<dots> = m # genSplit_loop (Suc 0) (p @ c # v) [c]"
    using assms(1) by (rule genSplit_loop_first)
  also have "genSplit_loop (Suc 0) (p @ c # v) [c] = p # genSplit_loop 0 v [c]"
    using assms(2) by (rule genSplit_loop_first)
  finally show ?thesis by simp
qed

lemma SplitN_two:
  "sep \<noteq> [] \<Longrightarrow>
   SplitN s sep 2 =
     (case Index s sep of None \<Rightarrow> [s] | Some i \<Rightarrow> [take i s, drop (i + length sep) s])"
proof (cases s)
  case Nil
  assume "sep \<noteq> []"
  with Nil show ?thesis
    by (simp add: SplitN_def genSplit_def)
next
  case (Cons x xs)
  then have "SplitN s sep 2 = genSplit_loop (Suc 0) s sep"
    by (simp add: SplitN_def genSplit_def)
  then show ?thesis
    by (simp del: Index.simps split: option.splits)
qed

section \<open>The branches of \<open>parse\<close>\<close>

lemma parse_empty_line:
  "parse ul r [] = Returns (None, r\<lparr>wroteHeaders := True, done' := True\<rparr>)"
  by (simp add: parse_def)

lemma parse_start_line_ok:
  assumes "line \<noteq> []" "\<not> wroteProtocol r" "Split line '' '' = [m, p, v]"
  shows "parse ul r line =
           Returns (None, r\<lparr>Method := m, Path := p, Protocol := v, wroteProtocol := True\<rparr>)"
  using assms by (simp add: parse_def)

lemma parse_start_line_bad:
  assumes "line \<noteq> []" "\<not> wroteProtocol r" "length (Split line '' '') \<noteq> 3"
  shows "parse ul r line = Returns (Some (Errorf ''protocol line is not valid''), r)"
  using assms by (simp add: parse_def)

lemma parse_header_ok:
  assumes "wroteProtocol r" "\<not> wroteHeaders r" "Headers r = Some h"
    and "Index line '': '' = Some i"
  shows "parse ul r line =
           Returns (None, r\<lparr>Headers := Some (h(ToLower ul (take i line) \<mapsto> ToLower ul (drop (i + 2) line)))\<rparr>)"
proof -
  from assms(4) have "line \<noteq> []" by auto
  with assms show ?thesis
    by (simp add: parse_def SplitN_two del: Index.simps)
qed

lemma parse_header_bad:
  assumes "line \<noteq> []" "wroteProtocol r" "\<not> wroteHeaders r" "Index line '': '' = None"
  shows "parse ul r line = Returns (Some (Errorf ''invalid header''), r)"
  using assms by (simp add: parse_def SplitN_two del: Index.simps)

lemma parse_after_headers:
  assumes "line \<noteq> []" "wroteProtocol r" "wroteHeaders r"
  shows "parse ul r line = Returns (None, r)"
  using assms by (simp add: parse_def)

section \<open>Lines of ASCII bytes\<close>

text \<open>
  On a line of ASCII bytes \<open>strings.ToLower\<close> never reaches the Unicode mapping, so
  \<open>parse\<close>, the loop and the handler give the same result whatever mapping is passed.
  The examples further down hold such lines only; they are stated for one mapping, the
  identity.
\<close>

lemma ToLower_isASCII: "isASCII s \<Longrightarrow> ToLower ul s = map toLowerByte s"
  by (simp add: ToLower_def)

lemma isASCII_take: "isASCII s \<Longrightarrow> isASCII (take n s)"
  by (auto simp: isASCII_def list_all_iff dest: in_set_takeD)

lemma isASCII_drop: "isASCII s \<Longrightarrow> isASCII (drop n s)"
  by (auto simp: isASCII_def list_all_iff dest: in_set_dropD)

lemma parse_isASCII:
  assumes "isASCII line"
  shows "parse ul r line = parse ul' r line"
proof -
  have "ToLower ul (take i line) = ToLower ul' (take i line)"
    and "ToLower ul (drop i line) = ToLower ul' (drop i line)" for i
    using assms by (simp_all add: ToLower_isASCII isASCII_take isASCII_drop)
  then show ?thesis
    by (simp add: parse_def Let_def SplitN_two split: option.splits del: Index.simps)
qed

lemma scan_loop_isASCII:
  assumes "list_all isASCII ls"
  shows "scan_loop ul r ls = scan_loop ul' r ls"
  using assms
proof (induction ls arbitrary: r)
  case Nil
  then show ?case by simp
next
  case (Cons l ls)
  then have "parse ul r l = parse ul' r l" and "\<And>r. scan_loop ul r ls = scan_loop ul' r ls"
    by (simp_all add: parse_isASCII)
  then show ?case by (simp split: exec.splits option.splits prod.splits)
qed

lemma handleConnection_v5_isASCII:
  "list_all isASCII ls \<Longrightarrow> handleConnection_v5 ul connWrite ls = handleConnection_v5 ul' connWrite ls"
  by (simp add: handleConnection_v5_def scan_loop_isASCII [of ls ul _ ul'])

section \<open>Malformed lines\<close>

text \<open>
  Claim C7. A non-empty line presented while the start line has not been parsed, whose
  split on single spaces does not give exactly 3 fields (2 or 4, say), makes \<open>parse\<close>
  return the error of a malformed start line and leaves the request as it was before the
  call. The number of fields is the number of spaces plus one.
\<close>

theorem C7_malformed_start_line:
  assumes "line \<noteq> []" and "\<not> wroteProtocol r"
    and "length (Split line '' '') \<noteq> 3"
  shows "parse ul r line = Returns (Some (Errorf ''protocol line is not valid''), r)
         \<and> length (Split line '' '') = Suc (count_list line (CHR '' ''))"
  using assms by (simp add: parse_start_line_bad length_Split)

theorem C7_malformed_start_line_witness:
  "''GET /'' \<noteq> [] \<and> \<not> wroteProtocol new_Request
   \<and> length (Split ''GET /'' '' '') = 2
   \<and> parse id new_Request ''GET /'' = Returns (Some (Errorf ''protocol line is not valid''), new_Request)
   \<and> length (Split ''GET / HTTP/1.1 x'' '' '') = 4
   \<and> parse id new_Request ''GET / HTTP/1.1 x''
       = Returns (Some (Errorf ''protocol line is not valid''), new_Request)"
proof -
  have a: "length (Split ''GET /'' '' '') = 2" by (simp add: length_Split)
  have b: "length (Split ''GET / HTTP/1.1 x'' '' '') = 4" by (simp add: length_Split)
  have c: "\<not> wroteProtocol new_Request" by (simp add: new_Request_def)
  show ?thesis
    using a b c C7_malformed_start_line [of "''GET /''" new_Request id]
      C7_malformed_start_line [of "''GET / HTTP/1.1 x''" new_Request id]
    by simp
qed

text \<open>
  Claim C8. In the header phase (start line parsed, headers not terminated) a non-empty
  line without the substring \<open>": "\<close> makes \<open>parse\<close> return the error of a
  malformed header, the request unchanged. A line with the separator is split at its
  first occurrence only (index \<open>i\<close>, no occurrence starts before it): the name is
  what precedes it, the value everything after it, later separators included, and both
  are stored lower-cased.
\<close>

theorem C8_header_line:
  assumes "line \<noteq> []" and "wroteProtocol r" and "\<not> wroteHeaders r"
  shows "((\<forall>pre post. line \<noteq> pre @ '': '' @ post) \<longrightarrow>
            parse ul r line = Returns (Some (Errorf ''invalid header''), r))
       \<and> (\<forall>i h. Index line '': '' = Some i \<and> Headers r = Some h \<longrightarrow>
            line = take i line @ '': '' @ drop (i + 2) line
            \<and> (\<forall>j<i. \<not> prefix '': '' (drop j line))
            \<and> parse ul r line =
                Returns (None, r\<lparr>Headers :=
                  Some (h(ToLower ul (take i line) \<mapsto> ToLower ul (drop (i + 2) line)))\<rparr>))"
proof -
  have bad: "parse ul r line = Returns (Some (Errorf ''invalid header''), r)"
    if "\<forall>pre post. line \<noteq> pre @ '': '' @ post"
  proof -
    from that have "Index line '': '' = None"
      using Index_None_iff [of line "'': ''"] by blast
    with assms show ?thesis by (rule parse_header_bad)
  qed
  have ok: "line = take i line @ '': '' @ drop (i + 2) line
            \<and> (\<forall>j<i. \<not> prefix '': '' (drop j line))
            \<and> parse ul r line =
                Returns (None, r\<lparr>Headers :=
                  Some (h(ToLower ul (take i line) \<mapsto> ToLower ul (drop (i + 2) line)))\<rparr>)"
    if "Index line '': '' = Some i \<and> Headers r = Some h" for i h
  proof -
    from that have i: "Index line '': '' = Some i" and h: "Headers r = Some h"
      by simp_all
    from i have "line = take i line @ '': '' @ drop (i + 2) line"
      using Index_Some_split [of line "'': ''" i] by simp
    moreover from i have "\<forall>j<i. \<not> prefix '': '' (drop j line)"
      using Index_Some_iff [of line "'': ''" i] by blast
    moreover from assms i h have "parse ul r line =
        Returns (None, r\<lparr>Headers :=
          Some (h(ToLower ul (take i line) \<mapsto> ToLower ul (drop (i + 2) line)))\<rparr>)"
      by (simp add: parse_header_ok del: Index.simps)
    ultimately show ?thesis by blast
  qed
  from bad ok show ?thesis by blast
qed

theorem C8_header_line_witness:
  "parse id (new_Request\<lparr>wroteProtocol := True\<rparr>) ''Host''
     = Returns (Some (Errorf ''invalid header''), new_Request\<lparr>wroteProtocol := True\<rparr>)
   \<and> parse id (new_Request\<lparr>wroteProtocol := True\<rparr>) ''X-Info: A: b''
     = Returns (None, new_Request\<lparr>wroteProtocol := True,
                 Headers := Some [''x-info'' \<mapsto> ''a: b'']\<rparr>)"
proof -
  let ?r = "new_Request\<lparr>wroteProtocol := True\<rparr>"
  have r: "wroteProtocol ?r" "\<not> wroteHeaders ?r" "Headers ?r = Some Map.empty"
    by (simp_all add: new_Request_def)
  have n: "\<forall>pre post. ''Host'' \<noteq> pre @ '': '' @ post"
    using Index_None_iff [of "''Host''" "'': ''"] by simp
  have i: "Index ''X-Info: A: b'' '': '' = Some 6" by simp
  have l: "ToLower id ''X-Info'' = ''x-info''" "ToLower id ''A: b'' = ''a: b''" by code_simp+
  show ?thesis
    using C8_header_line [of "''Host''" ?r id] C8_header_line [of "''X-Info: A: b''" ?r id] r n i l
    by (simp add: new_Request_def)
qed

section \<open>Repeated header names\<close>

text \<open>
  Claim C9. When two header lines with the same lower-cased name are parsed one after
  the other, the entry under that name holds the lower-cased value of the second line:
  a repeated name overwrites the previous value, and the map has one entry per key.
  (The lines \<open>Content-Length: 1\<close> and \<open>Content-Length: 2\<close> after a start line leave
  the single entry \<open>content-length\<close>, \<open>2\<close>.)
\<close>

theorem C9_last_header_wins:
  assumes "wroteProtocol r" and "\<not> wroteHeaders r" and "Headers r = Some h"
    and "Index line1 '': '' = Some i1" and "Index line2 '': '' = Some i2"
    and "ToLower ul (take i1 line1) = ToLower ul (take i2 line2)"
  shows "parse_calls ul r [line1, line2] =
           Returns (r\<lparr>Headers :=
             Some (h(ToLower ul (take i2 line2) \<mapsto> ToLower ul (drop (i2 + 2) line2)))\<rparr>)"
proof -
  let ?r1 = "r\<lparr>Headers := Some (h(ToLower ul (take i1 line1) \<mapsto> ToLower ul (drop (i1 + 2) line1)))\<rparr>"
  from assms have "parse ul r line1 = Returns (None, ?r1)"
    by (simp add: parse_header_ok del: Index.simps)
  moreover from assms have "parse ul ?r1 line2 =
      Returns (None, ?r1\<lparr>Headers := Some ((h(ToLower ul (take i1 line1) \<mapsto> ToLower ul (drop (i1 + 2) line1)))
        (ToLower ul (take i2 line2) \<mapsto> ToLower ul (drop (i2 + 2) line2)))\<rparr>)"
    by (simp add: parse_header_ok del: Index.simps)
  ultimately show ?thesis using assms(6) by simp
qed

theorem C9_last_header_wins_witness:
  "parse_calls id new_Request [''GET / HTTP/1.1'', ''Content-Length: 1'', ''Content-Length: 2'']
     = Returns (new_Request\<lparr>Method := ''GET'', Path := ''/'', Protocol := ''HTTP/1.1'',
         wroteProtocol := True, Headers := Some [''content-length'' \<mapsto> ''2'']\<rparr>)
   \<and> dom [''content-length'' \<mapsto> ''2''] = {''content-length''}"
proof -
  let ?r = "new_Request\<lparr>Method := ''GET'', Path := ''/'', Protocol := ''HTTP/1.1'',
         wroteProtocol := True\<rparr>"
  have s: "Split ''GET / HTTP/1.1'' '' '' = [''GET'', ''/'', ''HTTP/1.1'']"
    by (simp add: Split_def genSplit_def Count.simps)
  have "\<not> wroteProtocol new_Request" by (simp add: new_Request_def)
  with s have p: "parse id new_Request ''GET / HTTP/1.1'' = Returns (None, ?r)"
    by (simp add: parse_start_line_ok)
  have r: "wroteProtocol ?r" "\<not> wroteHeaders ?r" "Headers ?r = Some Map.empty"
    by (simp_all add: new_Request_def)
  have i: "Index ''Content-Length: 1'' '': '' = Some 14" "Index ''Content-Length: 2'' '': '' = Some 14"
    by simp_all
  have l: "ToLower id ''Content-Length'' = ''content-length''" "ToLower id ''2'' = ''2''"
    by code_simp+
  have "parse_calls id ?r [''Content-Length: 1'', ''Content-Length: 2'']
          = Returns (?r\<lparr>Headers := Some [''content-length'' \<mapsto> ''2'']\<rparr>)"
    using C9_last_header_wins [OF r i] l by simp
  with p show ?thesis by simp
qed

section \<open>Sequences of calls\<close>

lemma parse_step:
  assumes "Headers r \<noteq> None"
  shows "\<exists>e r'. parse ul r line = Returns (e, r')
           \<and> Headers r' \<noteq> None
           \<and> Body r' = Body r
           \<and> (wroteProtocol r \<longrightarrow> wroteProtocol r')
           \<and> (done' r' \<longleftrightarrow> done' r \<or> line = [])
           \<and> (wroteHeaders r' \<longleftrightarrow> wroteHeaders r \<or> line = [])
           \<and> (\<not> wroteProtocol r \<longrightarrow> Headers r' = Headers r)"
  using assms by (auto simp: parse_def Let_def)

lemma parse_calls_snoc:
  "parse_calls ul r (xs @ [l]) =
     (case parse_calls ul r xs of
        Panics p \<Rightarrow> Panics p
      | Returns r1 \<Rightarrow> (case parse ul r1 l of Panics p \<Rightarrow> Panics p | Returns (e, r2) \<Rightarrow> Returns r2))"
  by (induction xs arbitrary: r) (auto split: exec.splits)

lemma parse_calls_inv:
  assumes "Headers r \<noteq> None" and "done' r \<longrightarrow> wroteHeaders r"
    and "\<not> wroteProtocol r \<longrightarrow> Headers r = Some Map.empty"
  shows "\<exists>r1. parse_calls ul r xs = Returns r1
           \<and> Headers r1 \<noteq> None
           \<and> Body r1 = Body r
           \<and> (done' r1 \<longrightarrow> wroteHeaders r1)
           \<and> (\<not> wroteProtocol r1 \<longrightarrow> Headers r1 = Some Map.empty)
           \<and> (wroteHeaders r1 \<longleftrightarrow> wroteHeaders r \<or> [] \<in> set xs)"
  using assms
proof (induction xs arbitrary: r)
  case Nil
  then show ?case by simp
next
  case (Cons x xs)
  from parse_step [OF Cons.prems(1), of ul x] obtain e r' where
    p: "parse ul r x = Returns (e, r')" and h: "Headers r' \<noteq> None" and b: "Body r' = Body r"
    and wp: "wroteProtocol r \<longrightarrow> wroteProtocol r'"
    and d: "done' r' \<longleftrightarrow> done' r \<or> x = []"
    and wh: "wroteHeaders r' \<longleftrightarrow> wroteHeaders r \<or> x = []"
    and hd: "\<not> wroteProtocol r \<longrightarrow> Headers r' = Headers r"
    by blast
  from d wh Cons.prems(2) have i1: "done' r' \<longrightarrow> wroteHeaders r'" by blast
  from wp hd Cons.prems(3) have i2: "\<not> wroteProtocol r' \<longrightarrow> Headers r' = Some Map.empty"
    by auto
  from Cons.IH [OF h i1 i2] obtain r1 where
    "parse_calls ul r' xs = Returns r1" "Headers r1 \<noteq> None" "Body r1 = Body r'"
    "done' r1 \<longrightarrow> wroteHeaders r1" "\<not> wroteProtocol r1 \<longrightarrow> Headers r1 = Some Map.empty"
    "wroteHeaders r1 \<longleftrightarrow> wroteHeaders r' \<or> [] \<in> set xs"
    by blast
  with p b wh show ?case by auto
qed

lemma parse_GET_line:
  "parse ul new_Request ''GET / HTTP/1.1'' =
     Returns (None, new_Request\<lparr>Method := ''GET'', Path := ''/'', Protocol := ''HTTP/1.1'',
                wroteProtocol := True\<rparr>)"
proof -
  have "Split ''GET / HTTP/1.1'' '' '' = [''GET'', ''/'', ''HTTP/1.1'']"
    using Split_three [of "CHR '' ''" "''GET''" "''/''" "''HTTP/1.1''"] by simp
  moreover have "\<not> wroteProtocol new_Request" by (simp add: new_Request_def)
  ultimately show ?thesis by (simp add: parse_start_line_ok)
qed

lemma parse_Host_line:
  assumes "wroteProtocol r" and "\<not> wroteHeaders r" and "Headers r = Some h"
  shows "parse ul r ''Host: localhost:8080'' =
           Returns (None, r\<lparr>Headers := Some (h(''host'' \<mapsto> ''localhost:8080''))\<rparr>)"
proof -
  have i: "Index ''Host: localhost:8080'' '': '' = Some 4" by simp
  have l: "ToLower ul ''Host'' = ''host''" "ToLower ul ''localhost:8080'' = ''localhost:8080''"
    by code_simp+
  show ?thesis using parse_header_ok [OF assms i] l by simp
qed

lemma parse_calls_example:
  "parse_calls ul new_Request [''GET / HTTP/1.1'', ''Host: localhost:8080'', []] =
     Returns \<lparr>Protocol = ''HTTP/1.1'', Method = ''GET'', Path = ''/'',
       Headers = Some [''host'' \<mapsto> ''localhost:8080''], wroteProtocol = True,
       wroteHeaders = True, Body = [], done' = True\<rparr>"
proof -
  let ?r = "new_Request\<lparr>Method := ''GET'', Path := ''/'', Protocol := ''HTTP/1.1'',
                wroteProtocol := True\<rparr>"
  have "parse ul ?r ''Host: localhost:8080'' =
           Returns (None, ?r\<lparr>Headers := Some [''host'' \<mapsto> ''localhost:8080'']\<rparr>)"
    using parse_Host_line [of ?r Map.empty ul] by (simp add: new_Request_def)
  then show ?thesis
    by (simp add: parse_GET_line parse_empty_line) (simp add: new_Request_def)
qed

lemma new_Request_inv:
  "Headers new_Request \<noteq> None" "done' new_Request \<longrightarrow> wroteHeaders new_Request"
  "\<not> wroteProtocol new_Request \<longrightarrow> Headers new_Request = Some Map.empty"
  "\<not> wroteHeaders new_Request" "Body new_Request = []"
  by (simp_all add: new_Request_def)

text \<open>
  Claim C6. After every sequence \<open>xs\<close> of \<open>parse\<close> calls on the empty request
  (state \<open>r1\<close>), and for every next line \<open>l\<close> (state \<open>r2\<close>), no call panics and:
  (1) \<open>done\<close> is true only if \<open>wroteHeaders\<close> is;
  (2) while \<open>wroteProtocol\<close> is false the header map is empty and the next call stores
  nothing in it;
  (3) \<open>wroteHeaders\<close> is true exactly when a zero-length line has been presented, it
  is never reset, and it goes from false to true at one call only: the one that
  presents the first zero-length line.
\<close>

theorem C6_parse_invariants:
  "\<exists>r1 e r2. parse_calls ul new_Request xs = Returns r1 \<and> parse ul r1 l = Returns (e, r2)
      \<and> parse_calls ul new_Request (xs @ [l]) = Returns r2
      \<and> (done' r1 \<longrightarrow> wroteHeaders r1)
      \<and> (\<not> wroteProtocol r1 \<longrightarrow> Headers r1 = Some Map.empty \<and> Headers r2 = Some Map.empty)
      \<and> (wroteHeaders r1 \<longleftrightarrow> [] \<in> set xs)
      \<and> (wroteHeaders r1 \<longrightarrow> wroteHeaders r2)
      \<and> (\<not> wroteHeaders r1 \<and> wroteHeaders r2 \<longleftrightarrow> l = [] \<and> [] \<notin> set xs)"
proof -
  from parse_calls_inv [OF new_Request_inv(1-3), of ul xs] obtain r1 where
    c: "parse_calls ul new_Request xs = Returns r1" and h: "Headers r1 \<noteq> None"
    and i1: "done' r1 \<longrightarrow> wroteHeaders r1"
    and i2: "\<not> wroteProtocol r1 \<longrightarrow> Headers r1 = Some Map.empty"
    and i3: "wroteHeaders r1 \<longleftrightarrow> [] \<in> set xs"
    using new_Request_inv(4) by blast
  from parse_step [OF h, of ul l] obtain e r2 where
    p: "parse ul r1 l = Returns (e, r2)"
    and wh: "wroteHeaders r2 \<longleftrightarrow> wroteHeaders r1 \<or> l = []"
    and hd: "\<not> wroteProtocol r1 \<longrightarrow> Headers r2 = Headers r1"
    by blast
  from c p have s: "parse_calls ul new_Request (xs @ [l]) = Returns r2"
    by (simp add: parse_calls_snoc)
  from i2 hd have "\<not> wroteProtocol r1 \<longrightarrow> Headers r1 = Some Map.empty \<and> Headers r2 = Some Map.empty"
    by simp
  moreover from wh i3 have "\<not> wroteHeaders r1 \<and> wroteHeaders r2 \<longleftrightarrow> l = [] \<and> [] \<notin> set xs"
    by blast
  moreover from wh have "wroteHeaders r1 \<longrightarrow> wroteHeaders r2" by simp
  ultimately show ?thesis using c p s i1 i3 by blast
qed

theorem C6_parse_invariants_witness:
  "\<exists>r1 r2. parse_calls id new_Request [''GET / HTTP/1.1'', ''Host: localhost:8080'', []] = Returns r1
      \<and> parse_calls id new_Request [''GET / HTTP/1.1'', ''Host: localhost:8080'', [], ''x''] = Returns r2
      \<and> done' r1 \<and> wroteHeaders r1 \<and> wroteProtocol r1 \<and> wroteHeaders r2"
proof -
  let ?xs = "[''GET / HTTP/1.1'', ''Host: localhost:8080'', []]"
  from C6_parse_invariants [of id ?xs "''x''"] obtain r1 e r2 where
    a: "parse_calls id new_Request ?xs = Returns r1"
    and b: "parse_calls id new_Request (?xs @ [''x'']) = Returns r2"
    and c: "wroteHeaders r1 \<longleftrightarrow> [] \<in> set ?xs"
    and d: "wroteHeaders r1 \<longrightarrow> wroteHeaders r2"
    by blast
  from c have wh: "wroteHeaders r1" by simp
  from a have "done' r1 \<and> wroteProtocol r1"
    by (simp only: parse_calls_example) auto
  with a b d wh show ?thesis by auto
qed

text \<open>
  Claim C10. For a request reached by \<open>parse\<close> calls from the empty request in which
  both \<open>done\<close> and \<open>wroteProtocol\<close> are true, a further call of \<open>parse\<close>, with an
  empty or a non-empty line, returns nil and leaves every field of the request as it
  was.
\<close>

theorem C10_done_request_ignores_lines:
  assumes "parse_calls ul new_Request ls = Returns r" and "done' r" and "wroteProtocol r"
  shows "parse ul r line = Returns (None, r)"
proof -
  from parse_calls_inv [OF new_Request_inv(1-3), of ul ls] assms(1)
  have "done' r \<longrightarrow> wroteHeaders r" by auto
  with assms(2) have wh: "wroteHeaders r" by simp
  show ?thesis
  proof (cases "line = []")
    case True
    have "r\<lparr>wroteHeaders := True, done' := True\<rparr> = r"
      using wh assms(2) by simp
    with True show ?thesis by (simp add: parse_empty_line)
  next
    case False
    with assms(3) wh show ?thesis by (simp add: parse_after_headers)
  qed
qed


theorem C10_done_request_ignores_lines_witness:
  "\<exists>r. parse_calls id new_Request [''GET / HTTP/1.1'', ''Host: localhost:8080'', []] = Returns r
      \<and> done' r \<and> wroteProtocol r
      \<and> parse id r ''Accept: */*'' = Returns (None, r) \<and> parse id r [] = Returns (None, r)"
proof -
  let ?ls = "[''GET / HTTP/1.1'', ''Host: localhost:8080'', []]"
  obtain r where r: "parse_calls id new_Request ?ls = Returns r" "done' r" "wroteProtocol r"
    using parse_calls_example by (simp only: exec.inject) auto
  then show ?thesis
    using C10_done_request_ignores_lines [of id ?ls r "''Accept: */*''"]
      C10_done_request_ignores_lines [of id ?ls r "[]"]
    by blast
qed

section \<open>Well-formed requests\<close>

lemma Index_header_line:
  "CHR '':'' \<notin> set n \<Longrightarrow> Index (header_line (n, x)) '': '' = Some (length n)"
  using Index_first [of "CHR '':''" n "'' ''" x] by (simp add: header_line_def)

text \<open>
  Every line that holds the separator is the header line of a pair whose name ends at
  the first separator, so the pairs below cover all such lines.
\<close>

lemma header_line_of_Index:
  assumes "Index l '': '' = Some i"
  shows "header_line (take i l, drop (i + 2) l) = l"
    and "Index (header_line (take i l, drop (i + 2) l)) '': '' = Some (length (take i l))"
proof -
  from assms have "l = take i l @ '': '' @ drop (i + 2) l"
    using Index_Some_split [of l "'': ''" i] by simp
  then show eq: "header_line (take i l, drop (i + 2) l) = l"
    by (simp add: header_line_def)
  from assms have "i \<le> length l"
    using Index_Some_le [of l "'': ''" i] by simp
  with assms show "Index (header_line (take i l, drop (i + 2) l)) '': '' = Some (length (take i l))"
    by (simp only: eq) simp
qed

lemma map_upd_add:
  "m(k \<mapsto> v) ++ m' = m ++ ([k \<mapsto> v] ++ m')"
  by (rule ext) (simp add: map_add_def split: option.splits)

lemma scan_loop_headers:
  assumes "wroteProtocol r" and "\<not> wroteHeaders r" and "\<not> done' r" and "Headers r = Some h"
    and "\<forall>nv\<in>set nvs. Index (header_line nv) '': '' = Some (length (fst nv))"
  shows "scan_loop ul r (map header_line nvs @ [[]]) =
           Returns (None, r\<lparr>Headers := Some (h ++ map_of (rev (map (header_entry ul) nvs))),
                             wroteHeaders := True, done' := True\<rparr>)"
  using assms
proof (induction nvs arbitrary: r h)
  case Nil
  then show ?case by (simp add: parse_empty_line)
next
  case (Cons nv nvs)
  let ?r = "r\<lparr>Headers := Some (h(ToLower ul (fst nv) \<mapsto> ToLower ul (snd nv)))\<rparr>"
  from Cons.prems have i: "Index (header_line nv) '': '' = Some (length (fst nv))"
    by simp
  have p: "parse ul r (header_line nv) = Returns (None, ?r)"
    using parse_header_ok [OF Cons.prems(1,2,4) i] by (simp add: header_line_def)
  have "scan_loop ul ?r (map header_line nvs @ [[]]) =
          Returns (None, ?r\<lparr>Headers := Some (h(ToLower ul (fst nv) \<mapsto> ToLower ul (snd nv))
                    ++ map_of (rev (map (header_entry ul) nvs))),
                  wroteHeaders := True, done' := True\<rparr>)"
  proof (rule Cons.IH)
    show "wroteProtocol ?r" "\<not> wroteHeaders ?r" "\<not> done' ?r"
      using Cons.prems by simp_all
    show "Headers ?r = Some (h(ToLower ul (fst nv) \<mapsto> ToLower ul (snd nv)))"
      by simp
    show "\<forall>nv\<in>set nvs. Index (header_line nv) '': '' = Some (length (fst nv))"
      using Cons.prems by simp
  qed
  moreover have "h(ToLower ul (fst nv) \<mapsto> ToLower ul (snd nv)) ++ map_of (rev (map (header_entry ul) nvs))
      = h ++ map_of (rev (map (header_entry ul) (nv # nvs)))"
    using map_upd_add [of h "ToLower ul (fst nv)" "ToLower ul (snd nv)" "map_of (rev (map (header_entry ul) nvs))"]
    by (simp add: map_of_append header_entry_def del: map_add_upd_left)
  ultimately show ?case using p Cons.prems(3) by simp
qed


lemma map_of_rev_last:
  assumes "kvs = pre @ kv # post" and "fst kv \<notin> fst ` set post"
  shows "map_of (rev kvs) (fst kv) = Some (snd kv)"
proof -
  from assms(2) have "map_of (rev post) (fst kv) = None"
    by (simp add: map_of_eq_None_iff)
  with assms(1) show ?thesis
    by (simp add: map_of_append map_add_def)
qed

text \<open>
  Claim C1, as amended. A start line of three fields without spaces, joined by single
  spaces, then zero or more header lines \<open>name: value\<close> (the name ending at the first
  \<open>": "\<close> of the line), then a zero-length line: the loop of the handler returns no
  error and a request whose \<open>Method\<close>, \<open>Path\<close> and \<open>Protocol\<close> are the three
  fields as transmitted, and whose \<open>done\<close> flag is true. Its header map has a key for
  the lower-cased name of every header line; the value under it is the lower-cased
  value of the last line with that lower-cased name, so the line's own value when no
  later line repeats its name.
\<close>

theorem C1_well_formed_request:
  assumes "CHR '' '' \<notin> set m \<union> set p \<union> set v"
    and "\<forall>nv\<in>set nvs. Index (header_line nv) '': '' = Some (length (fst nv))"
  shows "scan_loop ul new_Request ((m @ '' '' @ p @ '' '' @ v) # map header_line nvs @ [[]]) =
           Returns (None,
             \<lparr>Protocol = v, Method = m, Path = p,
              Headers = Some (map_of (rev (map (header_entry ul) nvs))),
              wroteProtocol = True, wroteHeaders = True, Body = [], done' = True\<rparr>)
       \<and> (\<forall>nv\<in>set nvs. ToLower ul (fst nv) \<in> dom (map_of (rev (map (header_entry ul) nvs))))
       \<and> (\<forall>pre nv post.
            nvs = pre @ nv # post \<and> ToLower ul (fst nv) \<notin> (\<lambda>nv'. ToLower ul (fst nv')) ` set post \<longrightarrow>
            map_of (rev (map (header_entry ul) nvs)) (ToLower ul (fst nv)) = Some (ToLower ul (snd nv)))"
proof -
  let ?r = "new_Request\<lparr>Method := m, Path := p, Protocol := v, wroteProtocol := True\<rparr>"
  from assms(1) have "Split (m @ '' '' @ p @ '' '' @ v) '' '' = [m, p, v]"
    using Split_three [of "CHR '' ''" m p v] by simp
  moreover have "\<not> wroteProtocol new_Request" by (simp add: new_Request_def)
  ultimately have start: "parse ul new_Request (m @ '' '' @ p @ '' '' @ v) = Returns (None, ?r)"
    by (simp add: parse_start_line_ok)
  have "scan_loop ul ?r (map header_line nvs @ [[]]) =
          Returns (None, ?r\<lparr>Headers := Some (Map.empty ++ map_of (rev (map (header_entry ul) nvs))),
                              wroteHeaders := True, done' := True\<rparr>)"
  proof (rule scan_loop_headers)
    show "wroteProtocol ?r" "\<not> wroteHeaders ?r" "\<not> done' ?r" "Headers ?r = Some Map.empty"
      by (simp_all add: new_Request_def)
    show "\<forall>nv\<in>set nvs. Index (header_line nv) '': '' = Some (length (fst nv))"
      by (rule assms(2))
  qed
  with start have loop: "scan_loop ul new_Request ((m @ '' '' @ p @ '' '' @ v) # map header_line nvs @ [[]]) =
           Returns (None,
             \<lparr>Protocol = v, Method = m, Path = p,
              Headers = Some (map_of (rev (map (header_entry ul) nvs))),
              wroteProtocol = True, wroteHeaders = True, Body = [], done' = True\<rparr>)"
    by (simp add: new_Request_def)
  have keys: "\<forall>nv\<in>set nvs. ToLower ul (fst nv) \<in> dom (map_of (rev (map (header_entry ul) nvs)))"
    by (auto simp: dom_map_of_conv_image_fst header_entry_def image_iff intro!: bexI)
  have last: "map_of (rev (map (header_entry ul) nvs)) (ToLower ul (fst nv)) = Some (ToLower ul (snd nv))"
    if "nvs = pre @ nv # post \<and> ToLower ul (fst nv) \<notin> (\<lambda>nv'. ToLower ul (fst nv')) ` set post"
    for pre nv post
  proof -
    from that have "map (header_entry ul) nvs = map (header_entry ul) pre @ header_entry ul nv # map (header_entry ul) post"
      and "fst (header_entry ul nv) \<notin> fst ` set (map (header_entry ul) post)"
      by (auto simp: header_entry_def image_iff)
    then have "map_of (rev (map (header_entry ul) nvs)) (fst (header_entry ul nv)) = Some (snd (header_entry ul nv))"
      by (rule map_of_rev_last)
    then show ?thesis by (simp add: header_entry_def)
  qed
  from loop keys last show ?thesis by blast
qed

theorem C1_well_formed_request_witness:
  "scan_loop id new_Request [''GET / HTTP/1.1'', ''Host: localhost:8080'', []] =
     Returns (None,
       \<lparr>Protocol = ''HTTP/1.1'', Method = ''GET'', Path = ''/'',
        Headers = Some [''host'' \<mapsto> ''localhost:8080''],
        wroteProtocol = True, wroteHeaders = True, Body = [], done' = True\<rparr>)"
proof -
  have sp: "CHR '' '' \<notin> set ''GET'' \<union> set ''/'' \<union> set ''HTTP/1.1''" by simp
  have hd: "\<forall>nv\<in>set [(''Host'', ''localhost:8080'')].
              Index (header_line nv) '': '' = Some (length (fst nv))"
    by (simp add: header_line_def)
  have l: "ToLower id ''Host'' = ''host''" "ToLower id ''localhost:8080'' = ''localhost:8080''"
    by code_simp+
  show ?thesis
    using C1_well_formed_request [OF sp hd] l
    by (simp add: header_line_def header_entry_def)
qed

text \<open>
  The claim C1 as first stated asks for an entry from lower-cased name to lower-cased
  value for every header line. With the lines \<open>A: 1\<close> and \<open>A: 2\<close> the map holds
  \<open>a\<close>, \<open>2\<close> only: the entry \<open>a\<close>, \<open>1\<close> of the first line is not in it.
\<close>

theorem C1_counterexample:
  "scan_loop id new_Request [''GET / HTTP/1.1'', ''A: 1'', ''A: 2'', []] =
     Returns (None,
       \<lparr>Protocol = ''HTTP/1.1'', Method = ''GET'', Path = ''/'',
        Headers = Some [''a'' \<mapsto> ''2''],
        wroteProtocol = True, wroteHeaders = True, Body = [], done' = True\<rparr>)
   \<and> ToLower id ''A'' = ''a'' \<and> ToLower id ''1'' = ''1''
   \<and> [''a'' \<mapsto> ''2''] ''a'' \<noteq> Some ''1''"
proof -
  let ?r = "new_Request\<lparr>Method := ''GET'', Path := ''/'', Protocol := ''HTTP/1.1'',
                wroteProtocol := True\<rparr>"
  have r: "wroteProtocol ?r" "\<not> wroteHeaders ?r" "\<not> done' ?r" "Headers ?r = Some Map.empty"
    by (simp_all add: new_Request_def)
  have i: "\<forall>nv\<in>set [(''A'', ''1''), (''A'', ''2'')].
              Index (header_line nv) '': '' = Some (length (fst nv))"
    by (simp add: header_line_def)
  have l: "ToLower id ''A'' = ''a''" "ToLower id ''1'' = ''1''" "ToLower id ''2'' = ''2''"
    by code_simp+
  have "scan_loop id ?r (map header_line [(''A'', ''1''), (''A'', ''2'')] @ [[]]) =
          Returns (None, ?r\<lparr>Headers := Some [''a'' \<mapsto> ''2''], wroteHeaders := True, done' := True\<rparr>)"
    using scan_loop_headers [OF r i] l by (simp add: header_entry_def)
  then show ?thesis
    using l by (simp add: parse_GET_line header_line_def) (simp add: new_Request_def)
qed

section \<open>The bytes of the responses\<close>

lemma response_ok_Gopher:
  "response_ok dataToWrite =
     ''HTTP/1.1 200 OK'' @ [CHR 0x0D, CHR 0x0A] @ ''Content-Length: 8''
       @ [CHR 0x0D, CHR 0x0A, CHR 0x0D, CHR 0x0A] @ ''Gopher!!''"
  by code_simp

lemma response_not_found_bytes:
  "response_not_found =
     ''HTTP/1.1 404 Not Found'' @ [CHR 0x0D, CHR 0x0A] @ ''Content-Length: 0''
       @ [CHR 0x0D, CHR 0x0A, CHR 0x0D, CHR 0x0A]"
  by code_simp

section \<open>A zero-length line before the start line\<close>

text \<open>
  Claim C2, as amended. A zero-length line is handled by the first test of \<open>parse\<close>,
  in every phase, also while the start line has not been parsed: \<open>parse\<close> returns nil,
  sets \<open>wroteHeaders\<close> and \<open>done\<close>, and leaves the other fields as they were. The
  handler then leaves its loop with \<open>Path\<close> and \<open>Method\<close> still empty and answers 404.
\<close>

theorem C2_blank_line_any_phase:
  "parse ul r [] = Returns (None, r\<lparr>wroteHeaders := True, done' := True\<rparr>)
   \<and> handleConnection_v5 ul connWrite ([] # rest) = Returns \<lparr>written = response_not_found, closed = True\<rparr>"
  by (simp add: parse_empty_line handleConnection_v5_def) (simp add: new_Request_def)

theorem C2_blank_line_any_phase_witness:
  "parse id new_Request [] = Returns (None, new_Request\<lparr>wroteHeaders := True, done' := True\<rparr>)
   \<and> handleConnection_v5 id (\<lambda>b. None) [[], ''GET / HTTP/1.1'']
       = Returns \<lparr>written = ''HTTP/1.1 404 Not Found'' @ [CHR 0x0D, CHR 0x0A] @ ''Content-Length: 0''
           @ [CHR 0x0D, CHR 0x0A, CHR 0x0D, CHR 0x0A], closed = True\<rparr>"
  using C2_blank_line_any_phase [of id new_Request "(\<lambda>b. None)" "[''GET / HTTP/1.1'']"]
  by (simp add: response_not_found_bytes)

text \<open>
  The claim C2 as first stated has the zero-length line split into fewer than 3 fields
  and rejected as a malformed start line. On the empty request the split has 1 field,
  yet \<open>parse\<close> returns nil and marks the request done.
\<close>

theorem C2_counterexample:
  "\<not> wroteProtocol new_Request \<and> length (Split [] '' '') = 1
   \<and> parse id new_Request [] =
       Returns (None,
         \<lparr>Protocol = [], Method = [], Path = [], Headers = Some Map.empty,
          wroteProtocol = False, wroteHeaders = True, Body = [], done' = True\<rparr>)"
  by (simp add: parse_empty_line length_Split) (simp add: new_Request_def)

section \<open>The body\<close>

lemma scan_loop_inv:
  assumes "Headers r \<noteq> None"
  shows "\<exists>e r'. scan_loop ul r ls = Returns (e, r') \<and> Headers r' \<noteq> None \<and> Body r' = Body r
           \<and> (done' r' \<longrightarrow> done' r \<or> [] \<in> set ls)
           \<and> (wroteHeaders r' \<longrightarrow> wroteHeaders r \<or> [] \<in> set ls)"
  using assms
proof (induction ls arbitrary: r)
  case Nil
  then show ?case by simp
next
  case (Cons l ls)
  from parse_step [OF Cons.prems, of ul l] obtain e r1 where
    p: "parse ul r l = Returns (e, r1)" and h: "Headers r1 \<noteq> None" and b: "Body r1 = Body r"
    and d: "done' r1 \<longleftrightarrow> done' r \<or> l = []"
    and w: "wroteHeaders r1 \<longleftrightarrow> wroteHeaders r \<or> l = []"
    by blast
  from Cons.IH [OF h] obtain e' r' where
    "scan_loop ul r1 ls = Returns (e', r')" "Headers r' \<noteq> None" "Body r' = Body r1"
    "done' r' \<longrightarrow> done' r1 \<or> [] \<in> set ls"
    "wroteHeaders r' \<longrightarrow> wroteHeaders r1 \<or> [] \<in> set ls"
    by blast
  with p h b d w show ?case by (cases e) auto
qed

lemma scan_loop_POST:
  "scan_loop ul new_Request [''POST / HTTP/1.1'', ''Content-Length: 8'', []] =
     Returns (None,
       \<lparr>Protocol = ''HTTP/1.1'', Method = ''POST'', Path = ''/'',
        Headers = Some [''content-length'' \<mapsto> ''8''],
        wroteProtocol = True, wroteHeaders = True, Body = [], done' = True\<rparr>)"
proof -
  let ?r = "new_Request\<lparr>Method := ''POST'', Path := ''/'', Protocol := ''HTTP/1.1'',
                wroteProtocol := True\<rparr>"
  have "Split ''POST / HTTP/1.1'' '' '' = [''POST'', ''/'', ''HTTP/1.1'']"
    using Split_three [of "CHR '' ''" "''POST''" "''/''" "''HTTP/1.1''"] by simp
  moreover have "\<not> wroteProtocol new_Request" by (simp add: new_Request_def)
  ultimately have s: "parse ul new_Request ''POST / HTTP/1.1'' = Returns (None, ?r)"
    by (simp add: parse_start_line_ok)
  have r: "wroteProtocol ?r" "\<not> wroteHeaders ?r" "Headers ?r = Some Map.empty"
    by (simp_all add: new_Request_def)
  have i: "Index ''Content-Length: 8'' '': '' = Some 14" by simp
  have l: "ToLower ul ''Content-Length'' = ''content-length''" "ToLower ul ''8'' = ''8''"
    by code_simp+
  have "parse ul ?r ''Content-Length: 8'' =
          Returns (None, ?r\<lparr>Headers := Some [''content-length'' \<mapsto> ''8'']\<rparr>)"
    using parse_header_ok [OF r i] l by simp
  with s show ?thesis
    by (simp add: parse_empty_line) (simp add: new_Request_def)
qed

text \<open>
  Claim C3, as amended. No call of \<open>parse\<close> stores a body: after every sequence of
  calls on the empty request, and after the loop of the handler on any lines, the
  calls have returned and \<open>Body\<close> is still empty, whatever \<open>content-length\<close> header was
  supplied and whether or not completion was signalled.
\<close>

theorem C3_body_never_stored:
  "(\<exists>r. parse_calls ul new_Request ls = Returns r \<and> Body r = [])
   \<and> (\<exists>e r. scan_loop ul new_Request ls = Returns (e, r) \<and> Body r = [])"
proof -
  from parse_calls_inv [OF new_Request_inv(1-3), of ul ls]
  have "\<exists>r. parse_calls ul new_Request ls = Returns r \<and> Body r = []"
    using new_Request_inv(5) by auto
  moreover from scan_loop_inv [OF new_Request_inv(1), of ul ls]
  have "\<exists>e r. scan_loop ul new_Request ls = Returns (e, r) \<and> Body r = []"
    using new_Request_inv(5) by auto
  ultimately show ?thesis by blast
qed

theorem C3_body_never_stored_witness:
  "\<exists>e r. scan_loop id new_Request [''POST / HTTP/1.1'', ''Content-Length: 8'', []] = Returns (e, r)
     \<and> done' r \<and> Body r = []"
proof -
  let ?ls = "[''POST / HTTP/1.1'', ''Content-Length: 8'', []]"
  from C3_body_never_stored [of id ?ls] obtain e r where
    a: "scan_loop id new_Request ?ls = Returns (e, r)" and b: "Body r = []"
    by blast
  from a have "done' r"
    unfolding scan_loop_POST by (elim exec.inject [THEN iffD1, elim_format]) auto
  with a b show ?thesis by blast
qed

text \<open>
  The claim C3 as first stated has a body present after completion if and only if a
  \<open>content-length\<close> greater than 0 was supplied. After \<open>Content-Length: 8\<close> and the
  zero-length line the request is done, holds \<open>content-length\<close>, \<open>8\<close>, and has no body.
\<close>

theorem C3_counterexample:
  "scan_loop id new_Request [''POST / HTTP/1.1'', ''Content-Length: 8'', []] =
     Returns (None,
       \<lparr>Protocol = ''HTTP/1.1'', Method = ''POST'', Path = ''/'',
        Headers = Some [''content-length'' \<mapsto> ''8''],
        wroteProtocol = True, wroteHeaders = True, Body = [], done' = True\<rparr>)
   \<and> [''content-length'' \<mapsto> ''8''] ''content-length'' = Some (Itoa 8)"
proof -
  have "Itoa 8 = ''8''" by code_simp
  then show ?thesis by (simp only: scan_loop_POST) simp
qed

section \<open>Lines that end before the zero-length line\<close>

lemma scan_loop_open_headers:
  assumes "wroteProtocol r" and "\<not> wroteHeaders r" and "\<not> done' r" and "Headers r = Some h"
    and "[] \<notin> set hs"
  shows "if \<forall>l\<in>set hs. Index l '': '' \<noteq> None
         then \<exists>h'. scan_loop ul r hs = Returns (None, r\<lparr>Headers := Some h'\<rparr>)
         else \<exists>r'. scan_loop ul r hs = Returns (Some (Errorf ''invalid header''), r')"
  using assms
proof (induction hs arbitrary: r h)
  case Nil
  then have "scan_loop ul r [] = Returns (None, r\<lparr>Headers := Some h\<rparr>)" by simp
  then show ?case by auto
next
  case (Cons l hs)
  from Cons.prems(5) have ne: "l \<noteq> []" and rest: "[] \<notin> set hs" by auto
  show ?case
  proof (cases "Index l '': ''")
    case None
    with ne Cons.prems have "parse ul r l = Returns (Some (Errorf ''invalid header''), r)"
      by (simp add: parse_header_bad del: Index.simps)
    with None show ?thesis by (simp del: Index.simps)
  next
    case (Some i)
    let ?h = "h(ToLower ul (take i l) \<mapsto> ToLower ul (drop (i + 2) l))"
    let ?r = "r\<lparr>Headers := Some ?h\<rparr>"
    from Some Cons.prems have p: "parse ul r l = Returns (None, ?r)"
      by (simp add: parse_header_ok del: Index.simps)
    have ih: "if \<forall>l\<in>set hs. Index l '': '' \<noteq> None
         then \<exists>h'. scan_loop ul ?r hs = Returns (None, ?r\<lparr>Headers := Some h'\<rparr>)
         else \<exists>r'. scan_loop ul ?r hs = Returns (Some (Errorf ''invalid header''), r')"
    proof (rule Cons.IH)
      show "wroteProtocol ?r" "\<not> wroteHeaders ?r" "\<not> done' ?r"
        using Cons.prems by simp_all
      show "Headers ?r = Some ?h" by simp
      show "[] \<notin> set hs" by (rule rest)
    qed
    have s: "scan_loop ul r (l # hs) = scan_loop ul ?r hs"
      using p Cons.prems(3) by simp
    show ?thesis
    proof (cases "\<forall>l\<in>set hs. Index l '': '' \<noteq> None")
      case True
      with ih have "\<exists>h'. scan_loop ul ?r hs = Returns (None, ?r\<lparr>Headers := Some h'\<rparr>)"
        by (simp only: if_True)
      then obtain h' where "scan_loop ul ?r hs = Returns (None, ?r\<lparr>Headers := Some h'\<rparr>)"
        by blast
      then have "scan_loop ul r (l # hs) = Returns (None, r\<lparr>Headers := Some h'\<rparr>)"
        using s by simp
      with True Some show ?thesis by (auto simp del: Index.simps scan_loop.simps)
    next
      case False
      with ih have "\<exists>r'. scan_loop ul ?r hs = Returns (Some (Errorf ''invalid header''), r')"
        by (simp only: if_False)
      then obtain r' where "scan_loop ul ?r hs = Returns (Some (Errorf ''invalid header''), r')"
        by blast
      then have "scan_loop ul r (l # hs) = Returns (Some (Errorf ''invalid header''), r')"
        using s by simp
      with False show ?thesis by (auto simp del: Index.simps scan_loop.simps)
    qed
  qed
qed

lemma Split_GET_line: "Split ''GET / HTTP/1.1'' '' '' = [''GET'', ''/'', ''HTTP/1.1'']"
  using Split_three [of "CHR '' ''" "''GET''" "''/''" "''HTTP/1.1''"] by simp

lemma handleConnection_v5_open:
  assumes "[] \<notin> set ls"
  shows "handleConnection_v5 ul connWrite ls =
     Returns
       (case ls of
          [] \<Rightarrow> \<lparr>written = response_not_found, closed = True\<rparr>
        | start # hs \<Rightarrow>
            if length (Split start '' '') = 3 \<and> (\<forall>l\<in>set hs. Index l '': '' \<noteq> None) then
              (if Split start '' '' ! 1 \<noteq> ''/'' \<or> Split start '' '' ! 0 \<noteq> ''GET''
               then \<lparr>written = response_not_found, closed = True\<rparr>
               else \<lparr>written = response_ok dataToWrite,
                      closed = (connWrite (response_ok dataToWrite) = None)\<rparr>)
            else \<lparr>written = [], closed = True\<rparr>)"
proof (cases ls)
  case Nil
  then show ?thesis by (simp add: handleConnection_v5_def new_Request_def)
next
  case (Cons start hs)
  with assms have ne: "start \<noteq> []" and rest: "[] \<notin> set hs" by auto
  have np: "\<not> wroteProtocol new_Request" by (simp add: new_Request_def)
  show ?thesis
  proof (cases "length (Split start '' '') = 3")
    case False
    with ne np have "parse ul new_Request start = Returns (Some (Errorf ''protocol line is not valid''), new_Request)"
      by (simp add: parse_start_line_bad)
    with False Cons show ?thesis by (simp add: handleConnection_v5_def)
  next
    case True
    then obtain m p v where sp: "Split start '' '' = [m, p, v]"
      by (auto simp: length_Suc_conv numeral_3_eq_3)
    let ?r = "new_Request\<lparr>Method := m, Path := p, Protocol := v, wroteProtocol := True\<rparr>"
    from ne np sp have p: "parse ul new_Request start = Returns (None, ?r)"
      by (simp add: parse_start_line_ok)
    have s: "scan_loop ul new_Request ls = scan_loop ul ?r hs"
      using p Cons by (simp add: new_Request_def)
    have loop: "if \<forall>l\<in>set hs. Index l '': '' \<noteq> None
         then \<exists>h'. scan_loop ul ?r hs = Returns (None, ?r\<lparr>Headers := Some h'\<rparr>)
         else \<exists>r'. scan_loop ul ?r hs = Returns (Some (Errorf ''invalid header''), r')"
    proof (rule scan_loop_open_headers)
      show "wroteProtocol ?r" "\<not> wroteHeaders ?r" "\<not> done' ?r" "Headers ?r = Some Map.empty"
        by (simp_all add: new_Request_def)
      show "[] \<notin> set hs" by (rule rest)
    qed
    show ?thesis
    proof (cases "\<forall>l\<in>set hs. Index l '': '' \<noteq> None")
      case all: True
      with loop have "\<exists>h'. scan_loop ul ?r hs = Returns (None, ?r\<lparr>Headers := Some h'\<rparr>)"
        by (simp only: if_True)
      then obtain h' where "scan_loop ul ?r hs = Returns (None, ?r\<lparr>Headers := Some h'\<rparr>)"
        by blast
      with s have "scan_loop ul new_Request ls = Returns (None, ?r\<lparr>Headers := Some h'\<rparr>)"
        by simp
      then have "handleConnection_v5 ul connWrite ls =
          Returns (if p \<noteq> ''/'' \<or> m \<noteq> ''GET''
                   then \<lparr>written = response_not_found, closed = True\<rparr>
                   else \<lparr>written = response_ok dataToWrite,
                          closed = (connWrite (response_ok dataToWrite) = None)\<rparr>)"
        by (simp add: handleConnection_v5_def split: option.splits)
      with all True sp Cons show ?thesis by (simp del: Index.simps)
    next
      case False
      with loop have "\<exists>r'. scan_loop ul ?r hs = Returns (Some (Errorf ''invalid header''), r')"
        by (simp only: if_False)
      then obtain r' where "scan_loop ul ?r hs = Returns (Some (Errorf ''invalid header''), r')"
        by blast
      with s have "scan_loop ul new_Request ls = Returns (Some (Errorf ''invalid header''), r')"
        by simp
      then have "handleConnection_v5 ul connWrite ls = Returns \<lparr>written = [], closed = True\<rparr>"
        by (simp add: handleConnection_v5_def)
      moreover have "\<not> (length (Split start '' '') = 3 \<and> (\<forall>l\<in>set hs. Index l '': '' \<noteq> None))"
        using False by blast
      ultimately show ?thesis
        unfolding Cons by (simp only: list.case if_False)
    qed
  qed
qed

text \<open>
  Claim C4, as amended. When the lines end before any zero-length line, the handler
  does not fail with an incomplete request. Its loop returns with the request not marked
  done (\<open>done\<close> and \<open>wroteHeaders\<close> false), and then: with no line at all it answers 404
  and closes the connection; when the first line has 3 fields and every later line holds
  \<open>": "\<close>, it goes on to the router with the request it has and writes a response, 404
  and the connection closed unless the start line is \<open>GET /\<close>, for which it writes the
  200 response and closes the connection if the write succeeded; when a line is
  malformed it writes nothing and closes the connection.
\<close>

theorem C4_no_blank_line:
  assumes "[] \<notin> set ls"
  shows "(\<exists>e r. scan_loop ul new_Request ls = Returns (e, r) \<and> \<not> done' r \<and> \<not> wroteHeaders r)
     \<and> handleConnection_v5 ul connWrite ls =
         Returns
           (case ls of
              [] \<Rightarrow> \<lparr>written = response_not_found, closed = True\<rparr>
            | start # hs \<Rightarrow>
                if length (Split start '' '') = 3 \<and> (\<forall>l\<in>set hs. Index l '': '' \<noteq> None) then
                  (if Split start '' '' ! 1 \<noteq> ''/'' \<or> Split start '' '' ! 0 \<noteq> ''GET''
                   then \<lparr>written = response_not_found, closed = True\<rparr>
                   else \<lparr>written = response_ok dataToWrite,
                          closed = (connWrite (response_ok dataToWrite) = None)\<rparr>)
                else \<lparr>written = [], closed = True\<rparr>)"
proof -
  from scan_loop_inv [OF new_Request_inv(1), of ul ls] obtain e r where
    "scan_loop ul new_Request ls = Returns (e, r)"
    and "done' r \<longrightarrow> done' new_Request \<or> [] \<in> set ls"
    and "wroteHeaders r \<longrightarrow> wroteHeaders new_Request \<or> [] \<in> set ls"
    by blast
  with assms have "\<exists>e r. scan_loop ul new_Request ls = Returns (e, r) \<and> \<not> done' r \<and> \<not> wroteHeaders r"
    by (auto simp: new_Request_def)
  with handleConnection_v5_open [OF assms, of ul connWrite] show ?thesis
    by blast
qed

theorem C4_no_blank_line_witness:
  "[] \<notin> set [''GET / HTTP/1.1'', ''Accept: */*'']
   \<and> handleConnection_v5 id (\<lambda>b. None) [''GET / HTTP/1.1'', ''Accept: */*''] =
       Returns \<lparr>written = response_ok dataToWrite, closed = True\<rparr>
   \<and> handleConnection_v5 id (\<lambda>b. Some (ConnError ''broken pipe'')) [''GET / HTTP/1.1'', ''Accept: */*''] =
       Returns \<lparr>written = response_ok dataToWrite, closed = False\<rparr>
   \<and> [] \<notin> set [''GET / HTTP/1.1'', ''Accept'']
   \<and> handleConnection_v5 id (\<lambda>b. None) [''GET / HTTP/1.1'', ''Accept''] =
       Returns \<lparr>written = [], closed = True\<rparr>"
proof -
  have a: "[] \<notin> set [''GET / HTTP/1.1'', ''Accept: */*'']" by simp
  have b: "[] \<notin> set [''GET / HTTP/1.1'', ''Accept'']" by simp
  have i: "Index ''Accept: */*'' '': '' = Some 6" "Index ''Accept'' '': '' = None" by simp_all
  show ?thesis
    using C4_no_blank_line [OF a, of id "\<lambda>b. None"]
      C4_no_blank_line [OF a, of id "\<lambda>b. Some (ConnError ''broken pipe'')"]
      C4_no_blank_line [OF b, of id "\<lambda>b. None"] i
    by (simp add: Split_GET_line del: Index.simps)
qed

text \<open>
  The claim C4 as first stated has the handler report an error and produce no
  response. For a start line and a header line followed by the end of the stream, it
  writes the 200 response.
\<close>

theorem C4_counterexample:
  "[] \<notin> set [''GET / HTTP/1.1'', ''Host: localhost:8080'']
   \<and> handleConnection_v5 id (\<lambda>b. None) [''GET / HTTP/1.1'', ''Host: localhost:8080''] =
       Returns \<lparr>written = ''HTTP/1.1 200 OK'' @ [CHR 0x0D, CHR 0x0A] @ ''Content-Length: 8''
                    @ [CHR 0x0D, CHR 0x0A, CHR 0x0D, CHR 0x0A] @ ''Gopher!!'',
                closed = True\<rparr>"
proof -
  let ?r = "new_Request\<lparr>Method := ''GET'', Path := ''/'', Protocol := ''HTTP/1.1'',
                wroteProtocol := True\<rparr>"
  have "parse id ?r ''Host: localhost:8080'' =
           Returns (None, ?r\<lparr>Headers := Some [''host'' \<mapsto> ''localhost:8080'']\<rparr>)"
    using parse_Host_line [of ?r Map.empty id] by (simp add: new_Request_def)
  then have "scan_loop id new_Request [''GET / HTTP/1.1'', ''Host: localhost:8080''] =
      Returns (None, ?r\<lparr>Headers := Some [''host'' \<mapsto> ''localhost:8080'']\<rparr>)"
    by (simp add: parse_GET_line) (simp add: new_Request_def)
  then have "handleConnection_v5 id (\<lambda>b. None) [''GET / HTTP/1.1'', ''Host: localhost:8080''] =
      Returns \<lparr>written = response_ok dataToWrite, closed = True\<rparr>"
    by (simp add: handleConnection_v5_def)
  then show ?thesis by (simp only: response_ok_Gopher) simp
qed

section \<open>The response and its round trip\<close>

lemma scan_tokens_response:
  "scan_tokens 3 (response_ok dataToWrite) =
     ([''HTTP/1.1 200 OK'', ''Content-Length: 8'', []], ''Gopher!!'')"
  by code_simp

lemma scan_loop_response:
  "scan_loop ul new_Request [''HTTP/1.1 200 OK'', ''Content-Length: 8'', []] =
     Returns (None,
       \<lparr>Protocol = ''OK'', Method = ''HTTP/1.1'', Path = ''200'',
        Headers = Some [''content-length'' \<mapsto> ''8''],
        wroteProtocol = True, wroteHeaders = True, Body = [], done' = True\<rparr>)"
proof -
  let ?r = "new_Request\<lparr>Method := ''HTTP/1.1'', Path := ''200'', Protocol := ''OK'',
                wroteProtocol := True\<rparr>"
  have "Split ''HTTP/1.1 200 OK'' '' '' = [''HTTP/1.1'', ''200'', ''OK'']"
    using Split_three [of "CHR '' ''" "''HTTP/1.1''" "''200''" "''OK''"] by simp
  moreover have "\<not> wroteProtocol new_Request" by (simp add: new_Request_def)
  ultimately have s: "parse ul new_Request ''HTTP/1.1 200 OK'' = Returns (None, ?r)"
    by (simp add: parse_start_line_ok)
  have r: "wroteProtocol ?r" "\<not> wroteHeaders ?r" "Headers ?r = Some Map.empty"
    by (simp_all add: new_Request_def)
  have i: "Index ''Content-Length: 8'' '': '' = Some 14" by simp
  have l: "ToLower ul ''Content-Length'' = ''content-length''" "ToLower ul ''8'' = ''8''"
    by code_simp+
  have "parse ul ?r ''Content-Length: 8'' =
          Returns (None, ?r\<lparr>Headers := Some [''content-length'' \<mapsto> ''8'']\<rparr>)"
    using parse_header_ok [OF r i] l by simp
  with s show ?thesis
    by (simp add: parse_empty_line) (simp add: new_Request_def)
qed

lemma handleConnection_v5_GET:
  "handleConnection_v5 ul connWrite [''GET / HTTP/1.1'', ''Host: localhost:8080'', []] =
     Returns \<lparr>written = response_ok dataToWrite,
               closed = (connWrite (response_ok dataToWrite) = None)\<rparr>"
proof -
  let ?r = "new_Request\<lparr>Method := ''GET'', Path := ''/'', Protocol := ''HTTP/1.1'',
                wroteProtocol := True\<rparr>"
  have "parse ul ?r ''Host: localhost:8080'' =
           Returns (None, ?r\<lparr>Headers := Some [''host'' \<mapsto> ''localhost:8080'']\<rparr>)"
    using parse_Host_line [of ?r Map.empty ul] by (simp add: new_Request_def)
  then have "scan_loop ul new_Request [''GET / HTTP/1.1'', ''Host: localhost:8080'', []] =
      Returns (None, ?r\<lparr>Headers := Some [''host'' \<mapsto> ''localhost:8080''],
                          wroteHeaders := True, done' := True\<rparr>)"
    by (simp add: parse_GET_line parse_empty_line) (simp add: new_Request_def)
  then show ?thesis
    by (simp add: handleConnection_v5_def split: option.splits)
qed

lemma handleConnection_v4_cases:
  "handleConnection_v4 connWrite reads =
     (case read_loop reads of
        None \<Rightarrow> None
      | Some False \<Rightarrow> Some \<lparr>written = [], closed = False\<rparr>
      | Some True \<Rightarrow>
          Some \<lparr>written = response_ok dataToWrite,
                closed = (connWrite (response_ok dataToWrite) = None)\<rparr>)"
  by (simp add: handleConnection_v4_def split: option.splits bool.splits)

lemma Itoa_8: "Itoa (int (length ''Gopher!!'')) = ''8''"
  by code_simp

text \<open>
  Claim C5, as amended. The response for the body \<open>Gopher!!\<close> is exactly the status
  line \<open>HTTP/1.1 200 OK\<close>, the single header \<open>Content-Length: 8\<close> (8 is the length of the
  body in bytes), the blank line and the body; \<open>handleConnection_v5\<close> passes these bytes
  to \<open>conn.Write\<close> for \<open>GET /\<close>, and \<open>handleConnection_v4\<close> whenever its read loop ends
  by a short read. Read back with the parsing rules of the program, the scanner cuts
  the bytes into the three lines before the body and leaves the 8 bytes \<open>Gopher!!\<close>
  unread; \<open>parse\<close> on the three lines ends with \<open>done\<close> and the entry \<open>content-length\<close>,
  \<open>8\<close>, and stores no body in the request.
\<close>

theorem C5_response_round_trip:
  "response_ok ''Gopher!!'' =
     ''HTTP/1.1 200 OK'' @ [CHR 0x0D, CHR 0x0A] @ ''Content-Length: 8''
       @ [CHR 0x0D, CHR 0x0A, CHR 0x0D, CHR 0x0A] @ ''Gopher!!''
   \<and> Itoa (int (length ''Gopher!!'')) = ''8''
   \<and> handleConnection_v5 ul connWrite [''GET / HTTP/1.1'', ''Host: localhost:8080'', []] =
       Returns \<lparr>written = response_ok ''Gopher!!'',
                 closed = (connWrite (response_ok ''Gopher!!'') = None)\<rparr>
   \<and> handleConnection_v4 connWrite reads =
       (case read_loop reads of
          None \<Rightarrow> None
        | Some False \<Rightarrow> Some \<lparr>written = [], closed = False\<rparr>
        | Some True \<Rightarrow>
            Some \<lparr>written = response_ok ''Gopher!!'',
                  closed = (connWrite (response_ok ''Gopher!!'') = None)\<rparr>)
   \<and> scan_tokens 3 (response_ok ''Gopher!!'') =
       ([''HTTP/1.1 200 OK'', ''Content-Length: 8'', []], ''Gopher!!'')
   \<and> length (snd (scan_tokens 3 (response_ok ''Gopher!!''))) = 8
   \<and> scan_loop ul new_Request (fst (scan_tokens 3 (response_ok ''Gopher!!''))) =
       Returns (None,
         \<lparr>Protocol = ''OK'', Method = ''HTTP/1.1'', Path = ''200'',
          Headers = Some [''content-length'' \<mapsto> ''8''],
          wroteProtocol = True, wroteHeaders = True, Body = [], done' = True\<rparr>)"
proof -
  have d: "dataToWrite = ''Gopher!!''" by (simp add: dataToWrite_def)
  have t: "scan_tokens 3 (response_ok ''Gopher!!'') =
       ([''HTTP/1.1 200 OK'', ''Content-Length: 8'', []], ''Gopher!!'')"
    using scan_tokens_response by (simp only: d)
  have "response_ok ''Gopher!!'' =
     ''HTTP/1.1 200 OK'' @ [CHR 0x0D, CHR 0x0A] @ ''Content-Length: 8''
       @ [CHR 0x0D, CHR 0x0A, CHR 0x0D, CHR 0x0A] @ ''Gopher!!''"
    using response_ok_Gopher by (simp only: d)
  moreover have "handleConnection_v5 ul connWrite [''GET / HTTP/1.1'', ''Host: localhost:8080'', []] =
       Returns \<lparr>written = response_ok ''Gopher!!'',
                 closed = (connWrite (response_ok ''Gopher!!'') = None)\<rparr>"
    using handleConnection_v5_GET [of ul connWrite] by (simp only: d)
  moreover have "handleConnection_v4 connWrite reads =
       (case read_loop reads of
          None \<Rightarrow> None
        | Some False \<Rightarrow> Some \<lparr>written = [], closed = False\<rparr>
        | Some True \<Rightarrow>
            Some \<lparr>written = response_ok ''Gopher!!'',
                  closed = (connWrite (response_ok ''Gopher!!'') = None)\<rparr>)"
    using handleConnection_v4_cases [of connWrite reads] by (simp only: d)
  moreover have "length (snd (scan_tokens 3 (response_ok ''Gopher!!''))) = 8"
    by (simp only: t) simp
  moreover have "scan_loop ul new_Request (fst (scan_tokens 3 (response_ok ''Gopher!!''))) =
       Returns (None,
         \<lparr>Protocol = ''OK'', Method = ''HTTP/1.1'', Path = ''200'',
          Headers = Some [''content-length'' \<mapsto> ''8''],
          wroteProtocol = True, wroteHeaders = True, Body = [], done' = True\<rparr>)"
    by (simp only: t fst_conv scan_loop_response)
  ultimately show ?thesis
    using Itoa_8 t by blast
qed

theorem C5_response_round_trip_witness:
  "handleConnection_v5 id (\<lambda>b. None) [''GET / HTTP/1.1'', ''Host: localhost:8080'', []] =
     Returns \<lparr>written = ''HTTP/1.1 200 OK'' @ [CHR 0x0D, CHR 0x0A] @ ''Content-Length: 8''
                  @ [CHR 0x0D, CHR 0x0A, CHR 0x0D, CHR 0x0A] @ ''Gopher!!'',
              closed = True\<rparr>
   \<and> handleConnection_v4 (\<lambda>b. None) [(64, None), (20, Some EOF)] =
     Some \<lparr>written = ''HTTP/1.1 200 OK'' @ [CHR 0x0D, CHR 0x0A] @ ''Content-Length: 8''
                  @ [CHR 0x0D, CHR 0x0A, CHR 0x0D, CHR 0x0A] @ ''Gopher!!'',
           closed = True\<rparr>"
proof -
  from C5_response_round_trip [of id "\<lambda>b. None" "[(64, None), (20, Some EOF)]"] have
    a: "response_ok ''Gopher!!'' =
         ''HTTP/1.1 200 OK'' @ [CHR 0x0D, CHR 0x0A] @ ''Content-Length: 8''
           @ [CHR 0x0D, CHR 0x0A, CHR 0x0D, CHR 0x0A] @ ''Gopher!!''"
    and b: "handleConnection_v5 id (\<lambda>b. None) [''GET / HTTP/1.1'', ''Host: localhost:8080'', []] =
         Returns \<lparr>written = response_ok ''Gopher!!'',
                   closed = ((\<lambda>b. None) (response_ok ''Gopher!!'') = (None :: error option))\<rparr>"
    and c: "handleConnection_v4 (\<lambda>b. None) [(64, None), (20, Some EOF)] =
       (case read_loop [(64, None), (20, Some EOF)] of
          None \<Rightarrow> None
        | Some False \<Rightarrow> Some \<lparr>written = [], closed = False\<rparr>
        | Some True \<Rightarrow>
            Some \<lparr>written = response_ok ''Gopher!!'',
                  closed = ((\<lambda>b. None) (response_ok ''Gopher!!'') = (None :: error option))\<rparr>)"
    by blast+
  have r: "read_loop [(64, None), (20, Some EOF)] = Some True" by simp
  show ?thesis by (simp only: b c r a) simp
qed

text \<open>
  The claim C5 as first stated has the re-parsing recover the body \<open>Gopher!!\<close>. The
  request that \<open>parse\<close> builds from the lines of the response is done and holds
  \<open>content-length\<close>, \<open>8\<close>, but its \<open>Body\<close> is empty: the 8 bytes stay unread.
\<close>

theorem C5_counterexample:
  "scan_loop id new_Request (fst (scan_tokens 3 (response_ok ''Gopher!!''))) =
     Returns (None,
       \<lparr>Protocol = ''OK'', Method = ''HTTP/1.1'', Path = ''200'',
        Headers = Some [''content-length'' \<mapsto> ''8''],
        wroteProtocol = True, wroteHeaders = True, Body = [], done' = True\<rparr>)
   \<and> (case scan_loop id new_Request (fst (scan_tokens 3 (response_ok ''Gopher!!''))) of
        Returns (e, r) \<Rightarrow> done' r \<and> Body r \<noteq> ''Gopher!!''
      | Panics p \<Rightarrow> False)
   \<and> snd (scan_tokens 3 (response_ok ''Gopher!!'')) = ''Gopher!!''"
proof -
  have t: "scan_tokens 3 (response_ok ''Gopher!!'') =
       ([''HTTP/1.1 200 OK'', ''Content-Length: 8'', []], ''Gopher!!'')"
    using scan_tokens_response by (simp only: dataToWrite_def)
  show ?thesis
    by (simp only: t fst_conv snd_conv scan_loop_response) simp
qed

end
